theory Spec2Isabelle
  imports Complex_Main "HOL-Library.Multiset" "HOL-Library.AList"
begin

section \<open>Data model\<close>

text \<open>
  prom-query-stats reads a Prometheus query log (one JSON object per line), groups the
  entries by query text and prints ranked tables and percentiles. The repository holds
  several successive versions of the one source file; the newest (the one with
  \<^verbatim>\<open>percentile\<close>) is the reference, and the version that still carries
  \<^verbatim>\<open>LoadStats\<close> is modelled beside it where a property is about it.

  A \<^verbatim>\<open>time.Time\<close> is an instant; \<^verbatim>\<open>Before\<close> and \<^verbatim>\<open>After\<close>
  compare instants strictly. It is modelled as the integer number of nanoseconds since the
  zero value \<^verbatim>\<open>time.Time{}\<close>, which is therefore \<open>0\<close>. A pointer
  \<^verbatim>\<open>*time.Time\<close> is an option: \<open>None\<close> is \<^verbatim>\<open>nil\<close>.

  A \<^verbatim>\<open>float64\<close> decoded from JSON is finite (the decoder rejects anything else), so
  it is a rational number and the comparisons of the code are those of the rationals.
  Go's \<^verbatim>\<open>int\<close> fields are only compared, never added to in what follows, and are
  integers.
\<close>

type_synonym time = int
type_synonym float64 = rat

definition zero_time :: time where
  "zero_time = 0"

record Params =
  Query :: string
  Start :: "time option"
  End :: "time option"
  Step :: int

record Timings =
  EvalTotalTime :: float64
  ExecQueueTime :: float64
  ExecTotalTime :: float64
  InnerEvalTime :: float64
  QueryPreparationTime :: float64
  ResultSortTime :: float64

record Samples =
  TotalQueryableSamples :: int
  PeakSamples :: int

record Stats =
  Timings :: Timings
  Samples :: Samples

record RuleGroup =
  Name :: string
  File :: string

record LogEntry =
  Params :: Params
  Stats :: Stats
  RuleGroup :: "RuleGroup option"
  TS :: "time option"

text \<open>
  Errors returned by the functions and the run-time panics of Go are values of one type;
  the three \<open>Panic\<close> constructors are the crashes (an index or a slice bound out of
  range, a nil pointer dereferenced), the others are the \<^verbatim>\<open>error\<close> values built
  with \<^verbatim>\<open>fmt.Errorf\<close>. \<open>FailedToParseLine n e\<close> is
  \<^verbatim>\<open>"Failed to parse line %d: %w"\<close> with the loop counter \<open>n\<close> and the decoder's
  error \<open>e\<close>.
\<close>

datatype error =
    PercentileOutOfRange int
  | SliceIsEmpty
  | QueryCannotBeEmpty
  | NoLogEntries
  | FailedToParseLine nat string
  | ScannerError string
  | FailedToCreateQuery error
  | Loaded0Queries
  | PanicIndexOutOfRange
  | PanicSliceBounds
  | PanicNilDereference

text \<open>
  The three metrics, which the code spells \<^verbatim>\<open>log.Stats.Timings.ExecTotalTime\<close>,
  \<^verbatim>\<open>log.Stats.Samples.TotalQueryableSamples\<close> and \<^verbatim>\<open>log.Stats.Samples.PeakSamples\<close>.
\<close>

definition exec_total_time :: "LogEntry \<Rightarrow> float64" where
  "exec_total_time e = ExecTotalTime (Timings (Stats e))"

definition total_queryable_samples :: "LogEntry \<Rightarrow> int" where
  "total_queryable_samples e = TotalQueryableSamples (Samples (Stats e))"

definition peak_samples :: "LogEntry \<Rightarrow> int" where
  "peak_samples e = PeakSamples (Samples (Stats e))"

section \<open>Double-precision arithmetic of the percentile index\<close>

text \<open>
  \<^verbatim>\<open>percentile\<close> computes its index in \<^verbatim>\<open>float64\<close>:
  \<^verbatim>\<open>k = (float64(p)/100.0) * float64(len(nums)); kth = int(math.Ceil(k))\<close>.
  Each conversion, the division and the product round to the nearest binary64 number,
  ties to even. \<open>float64_round\<close> is that rounding on the rationals: the binade of
  \<open>x\<close> is the exponent \<open>e\<close> with \<open>2^e \<le> |x| < 2^(e+1)\<close>, a unit in the last place is
  \<open>2^(e-52)\<close>, and \<open>x\<close> goes to the nearest multiple of it. The exponent range of
  binary64 is not modelled: the values here lie between \<open>1/100\<close> and \<open>2^63\<close>, far
  from overflow and from the subnormal numbers.
\<close>

definition pow2 :: "int \<Rightarrow> rat" where
  "pow2 z = (if 0 \<le> z then 2 ^ nat z else 1 / 2 ^ nat (- z))"

definition round_half_even :: "rat \<Rightarrow> int" where
  "round_half_even x =
     (let f = \<lfloor>x\<rfloor>; d = x - of_int f
      in if d < 1 / 2 then f
         else if 1 / 2 < d then f + 1
         else if even f then f else f + 1)"

function bit_length :: "int \<Rightarrow> int" where
  "bit_length a = (if a \<le> 0 then 0 else 1 + bit_length (a div 2))"
  by pat_completeness auto
termination
  by (relation "measure nat") auto

definition binade :: "rat \<Rightarrow> int" where
  "binade x =
     (let (a, b) = quotient_of x;
          d = bit_length a - bit_length b
      in if pow2 d \<le> x then d else d - 1)"

definition float64_round :: "rat \<Rightarrow> rat" where
  "float64_round x =
     (if x = 0 then 0
      else let ulp = pow2 (binade \<bar>x\<bar> - 52)
           in of_int (round_half_even (x / ulp)) * ulp)"

definition kth_index :: "int \<Rightarrow> int \<Rightarrow> int" where
  "kth_index p n =
     \<lceil>float64_round (float64_round (float64_round (of_int p) / 100) * float64_round (of_int n))\<rceil>"

section \<open>percentile\<close>

text \<open>
  An index expression \<^verbatim>\<open>xs[i]\<close> of Go panics when \<open>i\<close> is not a position of the
  slice.
\<close>

definition index_go :: "'a list \<Rightarrow> int \<Rightarrow> error + 'a" where
  "index_go xs i =
     (if 0 \<le> i \<and> i < int (length xs) then Inr (xs ! nat i) else Inl PanicIndexOutOfRange)"

text \<open>
  \<^verbatim>\<open>func percentile[T int | float64](p int, nums []T) (T, error)\<close>.
  \<^verbatim>\<open>slices.Sort\<close> sorts ascending; the sorted list of values is unique, so
  \<open>sort\<close> stands for it. The slice is sorted in place, which no caller observes (each
  call receives a freshly built slice).
\<close>

definition percentile :: "int \<Rightarrow> 'a::linorder list \<Rightarrow> error + 'a" where
  "percentile p nums =
     (if p \<le> 0 \<or> p > 100 then Inl (PercentileOutOfRange p)
      else if length nums = 0 then Inl SliceIsEmpty
      else let sorted = sort nums;
               kth = kth_index p (int (length nums))
           in index_go sorted kth)"

section \<open>NewQuery\<close>

text \<open>
  The \<^verbatim>\<open>Query\<close> struct. Its three \<^verbatim>\<open>Avg...\<close> fields are means computed in
  \<^verbatim>\<open>float64\<close>; no property below reads them and they are left out of the record.
  The struct's field \<^verbatim>\<open>Query\<close> is \<open>Query_str\<close> here, the name being taken by the
  field of \<open>Params\<close>.
\<close>

record Query =
  Query_str :: string
  Logs :: "LogEntry list"
  MaxExecTotalTimeEntry :: LogEntry
  MaxTotalQueryableSamplesEntry :: LogEntry
  MaxPeakSamplesEntry :: LogEntry

text \<open>
  One running maximum of the loop
  \<^verbatim>\<open>if log.Stats... > maxEntry.Stats... { maxEntry = log }\<close>: the entry replaces the
  current one only when it is strictly greater on the metric \<open>f\<close>.
\<close>

definition keep_max :: "('a \<Rightarrow> 'b::linorder) \<Rightarrow> 'a \<Rightarrow> 'a \<Rightarrow> 'a" where
  "keep_max f entry maxEntry = (if f entry > f maxEntry then entry else maxEntry)"

text \<open>
  One iteration of \<^verbatim>\<open>for _, log := range logs\<close>, on the three maxima at once (the
  loop variable \<^verbatim>\<open>log\<close> is \<open>entry\<close> here).
\<close>

definition max_step :: "LogEntry \<Rightarrow> LogEntry \<times> LogEntry \<times> LogEntry \<Rightarrow> LogEntry \<times> LogEntry \<times> LogEntry" where
  "max_step entry m =
     (case m of (maxExecTotalTimeEntry, maxTotalQueryableSamplesEntry, maxPeakSamplesEntry) \<Rightarrow>
       (keep_max exec_total_time entry maxExecTotalTimeEntry,
        keep_max total_queryable_samples entry maxTotalQueryableSamplesEntry,
        keep_max peak_samples entry maxPeakSamplesEntry))"

text \<open>
  The three maxima start at \<^verbatim>\<open>logs[0]\<close> and the loop runs over all of
  \<^verbatim>\<open>logs\<close>, the first entry included.
\<close>

definition NewQuery :: "string \<Rightarrow> LogEntry list \<Rightarrow> error + Query" where
  "NewQuery query logs =
     (if query = [] then Inl QueryCannotBeEmpty
      else if length logs = 0 then Inl NoLogEntries
      else case fold max_step logs (hd logs, hd logs, hd logs) of
             (maxExecTotalTimeEntry, maxTotalQueryableSamplesEntry, maxPeakSamplesEntry) \<Rightarrow>
               Inr \<lparr>Query_str = query, Logs = logs,
                    MaxExecTotalTimeEntry = maxExecTotalTimeEntry,
                    MaxTotalQueryableSamplesEntry = maxTotalQueryableSamplesEntry,
                    MaxPeakSamplesEntry = maxPeakSamplesEntry\<rparr>)"

section \<open>LoadQueriesFromLog\<close>

text \<open>
  The input. \<^verbatim>\<open>bufio.Scanner\<close> hands the lines over one by one and stops at the
  end of the file or at a read error, which \<^verbatim>\<open>scanner.Err()\<close> reports after the
  loop: the input is the list of the lines scanned and that optional error.
  \<^verbatim>\<open>json.Unmarshal\<close> belongs to Go's library and is a parameter \<open>unmarshal\<close>,
  from a line to the decoder's error message or the decoded entry; the type of a line is
  left open.

  \<^verbatim>\<open>qMap\<close> is a \<^verbatim>\<open>map[string][]*LogEntry\<close>, here an association list with
  distinct keys. Go iterates over a map in an unspecified order: the order in which
  \<^verbatim>\<open>for query, queryLogs := range qMap\<close> visits the keys is a parameter
  \<open>range_order\<close>, of which the theorems assume only that it permutes the entries.

  Every \<^verbatim>\<open>entry\<close> is a fresh variable of the loop body and is never written again
  after the loop, so the pointers \<^verbatim>\<open>&entry\<close> are modelled by the entries they
  point to.
\<close>

definition qMap_append :: "(string \<times> LogEntry list) list \<Rightarrow> string \<Rightarrow> LogEntry \<Rightarrow> (string \<times> LogEntry list) list" where
  "qMap_append m k e = AList.update k ((case map_of m k of None \<Rightarrow> [] | Some v \<Rightarrow> v) @ [e]) m"

text \<open>
  \<^verbatim>\<open>entry.TS.Before(*from)\<close> and \<^verbatim>\<open>entry.TS.After(*to)\<close>: the method has a
  value receiver, so the call dereferences \<^verbatim>\<open>entry.TS\<close> and panics when it is nil.
\<close>

definition ts_Before :: "time option \<Rightarrow> time \<Rightarrow> error + bool" where
  "ts_Before ts u = (case ts of None \<Rightarrow> Inl PanicNilDereference | Some t \<Rightarrow> Inr (t < u))"

definition ts_After :: "time option \<Rightarrow> time \<Rightarrow> error + bool" where
  "ts_After ts u = (case ts of None \<Rightarrow> Inl PanicNilDereference | Some t \<Rightarrow> Inr (u < t))"

text \<open>
  The two \<^verbatim>\<open>continue\<close> tests of the time window; \<open>Inr True\<close> is
  \<^verbatim>\<open>continue\<close>. \<^verbatim>\<open>&&\<close> does not evaluate its right operand when the bound is
  nil.
\<close>

definition outside_window :: "time option \<Rightarrow> time option \<Rightarrow> LogEntry \<Rightarrow> error + bool" where
  "outside_window tfrom tto entry =
     (case (case tfrom of None \<Rightarrow> Inr False | Some f \<Rightarrow> ts_Before (TS entry) f) of
        Inl e \<Rightarrow> Inl e
      | Inr skip \<Rightarrow>
          if skip then Inr True
          else (case tto of None \<Rightarrow> Inr False | Some t \<Rightarrow> ts_After (TS entry) t))"

text \<open>
  The state of the scanning loop: the map, what the version at hand collects beside it
  (the newest version the slice \<^verbatim>\<open>logs\<close>, the older one its
  \<^verbatim>\<open>LoadStats\<close>), and the line numbers of the warnings printed with
  \<^verbatim>\<open>log.Printf("Failed to parse line %d: empty query", lineNum)\<close>.
\<close>

record 'c load_state =
  qMap :: "(string \<times> LogEntry list) list"
  collected :: 'c
  warnings :: "nat list"

text \<open>
  \<^verbatim>\<open>for lineNum := 0; scanner.Scan(); lineNum++\<close>. The loop body is the same in
  both versions up to the statements that follow the update of \<^verbatim>\<open>qMap\<close>; they
  are the parameter \<open>collect\<close>.
\<close>

fun scan_lines ::
  "('l \<Rightarrow> string + LogEntry) \<Rightarrow> (LogEntry \<Rightarrow> 'c \<Rightarrow> error + 'c) \<Rightarrow> time option \<Rightarrow> time option
     \<Rightarrow> nat \<Rightarrow> 'l list \<Rightarrow> 'c load_state \<Rightarrow> error + 'c load_state" where
  "scan_lines unmarshal collect tfrom tto lineNum [] st = Inr st"
| "scan_lines unmarshal collect tfrom tto lineNum (line # rest) st =
     (case unmarshal line of
        Inl err \<Rightarrow> Inl (FailedToParseLine lineNum err)
      | Inr entry \<Rightarrow>
          if Query (Params entry) = [] then
            scan_lines unmarshal collect tfrom tto (Suc lineNum) rest
              (st\<lparr>warnings := warnings st @ [lineNum]\<rparr>)
          else
            (case outside_window tfrom tto entry of
               Inl e \<Rightarrow> Inl e
             | Inr skip \<Rightarrow>
                 if skip then scan_lines unmarshal collect tfrom tto (Suc lineNum) rest st
                 else
                   (case collect entry (collected st) of
                      Inl e \<Rightarrow> Inl e
                    | Inr c \<Rightarrow>
                        scan_lines unmarshal collect tfrom tto (Suc lineNum) rest
                          (st\<lparr>qMap := qMap_append (qMap st) (Query (Params entry)) entry,
                              collected := c\<rparr>))))"

text \<open>
  The loop \<^verbatim>\<open>for query, queryLogs := range qMap\<close> that builds the result, over the
  entries in the order of the iteration; the first failure of \<^verbatim>\<open>NewQuery\<close> is
  returned.
\<close>

fun build_queries :: "(string \<times> LogEntry list) list \<Rightarrow> error + Query list" where
  "build_queries [] = Inr []"
| "build_queries ((query, queryLogs) # rest) =
     (case NewQuery query queryLogs of
        Inl e \<Rightarrow> Inl (FailedToCreateQuery e)
      | Inr q \<Rightarrow>
          (case build_queries rest of
             Inl e \<Rightarrow> Inl e
           | Inr queries \<Rightarrow> Inr (q # queries)))"

text \<open>The newest version: \<^verbatim>\<open>logs = append(logs, &entry)\<close> after the map update.\<close>

definition append_log :: "LogEntry \<Rightarrow> LogEntry list \<Rightarrow> error + LogEntry list" where
  "append_log entry logs = Inr (logs @ [entry])"

text \<open>
  The result is the triple of the queries, the filtered entries and, as the third
  component, the line numbers of the warnings logged on the way.
\<close>

definition LoadQueriesFromLog ::
  "('l \<Rightarrow> string + LogEntry) \<Rightarrow> ((string \<times> LogEntry list) list \<Rightarrow> (string \<times> LogEntry list) list)
     \<Rightarrow> time option \<Rightarrow> time option \<Rightarrow> 'l list \<Rightarrow> string option
     \<Rightarrow> error + (Query list \<times> LogEntry list \<times> nat list)" where
  "LoadQueriesFromLog unmarshal range_order tfrom tto lines scan_err =
     (case scan_lines unmarshal append_log tfrom tto 0 lines
             \<lparr>qMap = [], collected = [], warnings = []\<rparr> of
        Inl e \<Rightarrow> Inl e
      | Inr st \<Rightarrow>
          (case scan_err of
             Some err \<Rightarrow> Inl (ScannerError err)
           | None \<Rightarrow>
               (case build_queries (range_order (qMap st)) of
                  Inl e \<Rightarrow> Inl e
                | Inr queries \<Rightarrow> Inr (queries, collected st, warnings st))))"

subsection \<open>The version with LoadStats\<close>

text \<open>
  \<^verbatim>\<open>src/main.go\<close> keeps no list of the entries; it counts them and tracks two
  timestamps, starting from \<^verbatim>\<open>LoadStats{0, time.Now(), time.Time{}}\<close>. The clock
  reading \<^verbatim>\<open>time.Now()\<close> is the parameter \<open>now\<close>. After
  \<^verbatim>\<open>stats.Num++\<close> come \<^verbatim>\<open>if entry.TS.Before(stats.From) { stats.From = *entry.TS }\<close>
  and \<^verbatim>\<open>if entry.TS.After(stats.To) { stats.To = *entry.TS }\<close>; the first of them
  already dereferences \<^verbatim>\<open>entry.TS\<close> and panics when it is nil. (This version's \<^verbatim>\<open>NewQuery\<close> takes the entries by value; the
  queries it builds are those of \<open>NewQuery\<close> above when each iteration of its loop has
  its own variable, and nothing stated about this version depends on them.)
\<close>

record LoadStats =
  Num :: int
  From :: time
  To :: time

definition update_stats :: "LogEntry \<Rightarrow> LoadStats \<Rightarrow> error + LoadStats" where
  "update_stats entry stats =
     (let stats1 = stats\<lparr>Num := Num stats + 1\<rparr>
      in case TS entry of
           None \<Rightarrow> Inl PanicNilDereference
         | Some ts \<Rightarrow>
             (let stats2 = (if ts < From stats1 then stats1\<lparr>From := ts\<rparr> else stats1)
              in Inr (if To stats2 < ts then stats2\<lparr>To := ts\<rparr> else stats2)))"

definition LoadQueriesFromLog_LoadStats ::
  "('l \<Rightarrow> string + LogEntry) \<Rightarrow> ((string \<times> LogEntry list) list \<Rightarrow> (string \<times> LogEntry list) list)
     \<Rightarrow> time \<Rightarrow> time option \<Rightarrow> time option \<Rightarrow> 'l list \<Rightarrow> string option
     \<Rightarrow> error + (Query list \<times> LoadStats \<times> nat list)" where
  "LoadQueriesFromLog_LoadStats unmarshal range_order now tfrom tto lines scan_err =
     (case scan_lines unmarshal update_stats tfrom tto 0 lines
             \<lparr>qMap = [], collected = \<lparr>Num = 0, From = now, To = zero_time\<rparr>, warnings = []\<rparr> of
        Inl e \<Rightarrow> Inl e
      | Inr st \<Rightarrow>
          (case scan_err of
             Some err \<Rightarrow> Inl (ScannerError err)
           | None \<Rightarrow>
               (case build_queries (range_order (qMap st)) of
                  Inl e \<Rightarrow> Inl e
                | Inr queries \<Rightarrow> Inr (queries, collected st, warnings st))))"

text \<open>
  What \<^verbatim>\<open>main\<close> of this version logs after loading:
  \<^verbatim>\<open>"Loaded %d entries from [%v] to [%v]"\<close> with \<^verbatim>\<open>loadStats.Num\<close>,
  \<^verbatim>\<open>loadStats.From\<close> and \<^verbatim>\<open>loadStats.To\<close>, unless loading failed or no query was
  loaded (both end the run with \<^verbatim>\<open>log.Fatal\<close>).
\<close>

definition main_load_summary ::
  "('l \<Rightarrow> string + LogEntry) \<Rightarrow> ((string \<times> LogEntry list) list \<Rightarrow> (string \<times> LogEntry list) list)
     \<Rightarrow> time \<Rightarrow> time option \<Rightarrow> time option \<Rightarrow> 'l list \<Rightarrow> string option
     \<Rightarrow> error + (int \<times> time \<times> time)" where
  "main_load_summary unmarshal range_order now tfrom tto lines scan_err =
     (case LoadQueriesFromLog_LoadStats unmarshal range_order now tfrom tto lines scan_err of
        Inl e \<Rightarrow> Inl e
      | Inr (queries, loadStats, ws) \<Rightarrow>
          if length queries = 0 then Inl Loaded0Queries
          else Inr (Num loadStats, From loadStats, To loadStats))"

section \<open>The ranked tables of main\<close>

text \<open>
  \<^verbatim>\<open>if *argTop > len(queries) { *argTop = len(queries) }\<close>, then for each of the six
  orders \<^verbatim>\<open>sort.Sort(sort.Reverse(By...{queries}))\<close> and a table with one row for
  each element of \<^verbatim>\<open>queries[:*argTop]\<close>. A slice expression \<^verbatim>\<open>s[:hi]\<close> panics
  unless \<open>0 \<le> hi \<le> cap(s)\<close>; the capacity of \<^verbatim>\<open>queries\<close> is its length
  (\<^verbatim>\<open>make([]*Query, 0, len(qMap))\<close> and one \<^verbatim>\<open>append\<close> for each key).
  \<^verbatim>\<open>sort.Sort\<close> is not stable and is a parameter \<open>sort_Sort\<close>, which sorts the
  slice in place: the next table starts from the order the last one left.
\<close>

datatype metric =
    ByAvgExecTotalTime
  | ByMaxExecTotalTime
  | ByAvgTotalQueryableSamples
  | ByMaxTotalQueryableSamples
  | ByAvgPeakSamples
  | ByMaxPeakSamples

definition all_metrics :: "metric list" where
  "all_metrics = [ByAvgExecTotalTime, ByMaxExecTotalTime, ByAvgTotalQueryableSamples,
                  ByMaxTotalQueryableSamples, ByAvgPeakSamples, ByMaxPeakSamples]"

definition clamp_argTop :: "int \<Rightarrow> nat \<Rightarrow> int" where
  "clamp_argTop argTop n = (if argTop > int n then int n else argTop)"

definition slice_to :: "'a list \<Rightarrow> int \<Rightarrow> error + 'a list" where
  "slice_to xs hi =
     (if 0 \<le> hi \<and> hi \<le> int (length xs) then Inr (take (nat hi) xs) else Inl PanicSliceBounds)"

fun print_tables ::
  "(metric \<Rightarrow> Query list \<Rightarrow> Query list) \<Rightarrow> int \<Rightarrow> metric list \<Rightarrow> Query list
     \<Rightarrow> error + (metric \<times> Query list) list" where
  "print_tables sort_Sort argTop [] queries = Inr []"
| "print_tables sort_Sort argTop (m # ms) queries =
     (let sorted = sort_Sort m queries
      in case slice_to sorted argTop of
           Inl e \<Rightarrow> Inl e
         | Inr rows \<Rightarrow>
             (case print_tables sort_Sort argTop ms sorted of
                Inl e \<Rightarrow> Inl e
              | Inr tables \<Rightarrow> Inr ((m, rows) # tables)))"

definition ranked_views ::
  "(metric \<Rightarrow> Query list \<Rightarrow> Query list) \<Rightarrow> int \<Rightarrow> Query list \<Rightarrow> error + (metric \<times> Query list) list" where
  "ranked_views sort_Sort argTop queries =
     print_tables sort_Sort (clamp_argTop argTop (length queries)) all_metrics queries"

section \<open>Notions of the specification\<close>

text \<open>
  The specification speaks of the first record that achieves the maximum of a metric, of
  the inclusive time window, of the decoded records and of the records that survive the
  filter. These are its notions, written independently of the code above.
\<close>

definition first_max :: "('a \<Rightarrow> 'b::linorder) \<Rightarrow> 'a list \<Rightarrow> 'a option" where
  "first_max f xs = find (\<lambda>x. \<forall>y \<in> set xs. f y \<le> f x) xs"

definition in_window :: "time option \<Rightarrow> time option \<Rightarrow> time \<Rightarrow> bool" where
  "in_window tfrom tto ts \<longleftrightarrow>
     (case tfrom of None \<Rightarrow> True | Some f \<Rightarrow> f \<le> ts) \<and>
     (case tto of None \<Rightarrow> True | Some t \<Rightarrow> ts \<le> t)"

definition decoded :: "('l \<Rightarrow> string + LogEntry) \<Rightarrow> 'l list \<Rightarrow> LogEntry list" where
  "decoded unmarshal lines =
     concat (map (\<lambda>l. case unmarshal l of Inl err \<Rightarrow> [] | Inr entry \<Rightarrow> [entry]) lines)"

text \<open>
  A record survives when its query is not empty and its timestamp lies in the window (a
  record without a timestamp can only be met when no bound is set, or the run crashes).
\<close>

definition survives :: "time option \<Rightarrow> time option \<Rightarrow> LogEntry \<Rightarrow> bool" where
  "survives tfrom tto entry \<longleftrightarrow>
     Query (Params entry) \<noteq> [] \<and>
     (case TS entry of None \<Rightarrow> True | Some ts \<Rightarrow> in_window tfrom tto ts)"

text \<open>A record carries a timestamp when its query is empty (it is skipped) or \<^verbatim>\<open>ts\<close> is set.\<close>

definition carries_ts :: "LogEntry \<Rightarrow> bool" where
  "carries_ts entry \<longleftrightarrow> Query (Params entry) = [] \<or> TS entry \<noteq> None"

text \<open>A permutation of the entries of the map: all that is known of Go's iteration order.\<close>

definition permutes :: "('a list \<Rightarrow> 'a list) \<Rightarrow> bool" where
  "permutes range_order \<longleftrightarrow> (\<forall>m. mset (range_order m) = mset m)"

text \<open>How a run of the loader ends when it does not crash: with its result or with an error value.\<close>

definition returns_normally :: "error + 'a \<Rightarrow> bool" where
  "returns_normally r \<longleftrightarrow>
     (case r of
        Inr v \<Rightarrow> True
      | Inl (FailedToParseLine n e) \<Rightarrow> True
      | Inl (ScannerError e) \<Rightarrow> True
      | Inl e \<Rightarrow> False)"

subsection \<open>Sample records\<close>

text \<open>A log entry with the given query, timestamp and the three metrics, all else zero.\<close>

definition sample_entry :: "string \<Rightarrow> time option \<Rightarrow> float64 \<Rightarrow> int \<Rightarrow> int \<Rightarrow> LogEntry" where
  "sample_entry q ts exec tqs peak =
     \<lparr>Params = \<lparr>Query = q, Start = None, End = None, Step = 0\<rparr>,
      Stats = \<lparr>Timings = \<lparr>EvalTotalTime = 0, ExecQueueTime = 0, ExecTotalTime = exec,
                           InnerEvalTime = 0, QueryPreparationTime = 0, ResultSortTime = 0\<rparr>,
               Samples = \<lparr>TotalQueryableSamples = tqs, PeakSamples = peak\<rparr>\<rparr>,
      RuleGroup = None, TS = ts\<rparr>"

text \<open>A query group of one such entry.\<close>

definition sample_query :: "string \<Rightarrow> Query" where
  "sample_query q =
     \<lparr>Query_str = q, Logs = [sample_entry q (Some 0) 1 1 1],
      MaxExecTotalTimeEntry = sample_entry q (Some 0) 1 1 1,
      MaxTotalQueryableSamplesEntry = sample_entry q (Some 0) 1 1 1,
      MaxPeakSamplesEntry = sample_entry q (Some 0) 1 1 1\<rparr>"

text \<open>A sample input is a list of lines already paired with what the decoder makes of them.\<close>

definition decode_sample :: "string + LogEntry \<Rightarrow> string + LogEntry" where
  "decode_sample line = line"

definition map_order :: "(string \<times> LogEntry list) list \<Rightarrow> (string \<times> LogEntry list) list" where
  "map_order m = rev m"

definition keep_order :: "metric \<Rightarrow> Query list \<Rightarrow> Query list" where
  "keep_order m queries = queries"

section \<open>Properties of percentile\<close>

lemma pow2_pos: "0 < pow2 z"
  by (simp add: pow2_def)

lemma round_half_even_nonneg: "0 \<le> x \<Longrightarrow> 0 \<le> round_half_even x"
  by (simp add: round_half_even_def Let_def)

lemma float64_round_nonneg: "0 \<le> x \<Longrightarrow> 0 \<le> float64_round x"
  using pow2_pos [of "binade \<bar>x\<bar> - 52"]
  by (simp add: float64_round_def Let_def round_half_even_nonneg)

lemma kth_index_nonneg: "0 \<le> p \<Longrightarrow> 0 \<le> n \<Longrightarrow> 0 \<le> kth_index p n"
  unfolding kth_index_def
  by (intro order_trans [OF _ le_of_int_ceiling, THEN iffD1 [OF of_int_0_le_iff]]
        float64_round_nonneg mult_nonneg_nonneg divide_nonneg_nonneg) simp_all

text \<open>
  The index is computed in double precision and is not always the ceiling of the exact
  product: for rank 7 and 100 samples \<^verbatim>\<open>float64(7)/100.0*100\<close> is
  \<open>7.000000000000001\<close> and the index is 8.
\<close>

lemma kth_index_7_of_100: "kth_index 7 100 = 8"
  by code_simp

text \<open>
  Claim C1. For every non-empty sample list and every rank from 1 to 100,
  \<^verbatim>\<open>percentile\<close> returns an element of the list and does not index out of bounds.

  The code does not do so. The rank of the nearest-rank method counts from 1, and the
  code uses it as an index that counts from 0: at rank 100 the index is the length of the
  slice, and with fewer than twenty samples the default rank 95 is out of range as well.
  The three evaluations below end in the panic "index out of range": rank 100 on one
  sample, rank 95 on three samples, rank 1 on one \<^verbatim>\<open>float64\<close> sample.
\<close>

theorem percentile_index_out_of_range:
  "percentile 100 [5 :: int] = Inl PanicIndexOutOfRange
   \<and> percentile 95 [1, 2, 3 :: int] = Inl PanicIndexOutOfRange
   \<and> percentile 1 [5 / 2 :: rat] = Inl PanicIndexOutOfRange"
  by code_simp

text \<open>
  Claim C2. For every rank \<open>0 < p \<le> 100\<close> and every non-empty sample list,
  \<^verbatim>\<open>percentile\<close> sorts the samples ascending, computes
  \<open>k = ceil(p/100 * count)\<close> and returns the element at the 0-based index \<open>k\<close> of the
  sorted sequence, with no interpolation and no clamping of \<open>k\<close>.

  As stated this fails where \<open>k\<close> is not an index: at rank 100 of three samples
  \<open>k = 3\<close> and nothing is returned.
\<close>

theorem percentile_rank_100_counterexample:
  "percentile 100 [30, 10, 20 :: int] = Inl PanicIndexOutOfRange \<and> kth_index 100 3 = 3"
  by code_simp

text \<open>
  Claim C2, amended. For every rank \<open>0 < p \<le> 100\<close> and every non-empty sample list
  for which \<open>k\<close>, the ceiling of \<open>p/100 * count\<close> evaluated in \<^verbatim>\<open>float64\<close> as
  the code does, is less than \<open>count\<close>, \<^verbatim>\<open>percentile\<close> returns the element at the
  0-based index \<open>k\<close> of the samples sorted ascending.
\<close>

theorem percentile_index_in_range:
  assumes "0 < p" and "p \<le> 100" and "nums \<noteq> []"
    and "kth_index p (int (length nums)) < int (length nums)"
  shows "percentile p nums = Inr (sort nums ! nat (kth_index p (int (length nums))))"
  using assms kth_index_nonneg [of p "int (length nums)"]
  by (simp add: percentile_def index_go_def Let_def)

theorem percentile_index_in_range_witness:
  "(0::int) < 50 \<and> (50::int) \<le> 100 \<and> [30, 10, 20 :: int] \<noteq> []
   \<and> kth_index 50 (int (length [30, 10, 20 :: int])) < int (length [30, 10, 20 :: int])
   \<and> percentile 50 [30, 10, 20 :: int] = Inr 30"
proof -
  have k: "kth_index 50 (int (length [30, 10, 20 :: int])) = 2"
    by code_simp
  show ?thesis
    using percentile_index_in_range [of 50 "[30, 10, 20 :: int]"] k by simp
qed

section \<open>Properties of NewQuery\<close>

lemma fold_max_step:
  "fold max_step xs (a, b, c) =
     (fold (keep_max exec_total_time) xs a,
      fold (keep_max total_queryable_samples) xs b,
      fold (keep_max peak_samples) xs c)"
  by (induction xs arbitrary: a b c) (simp_all add: max_step_def)

lemma fold_keep_max_first:
  "find (\<lambda>x. \<forall>y \<in> set (c # xs). f y \<le> f x) (c # xs) = Some (fold (keep_max f) xs c)"
proof (induction xs arbitrary: c)
  case Nil
  show ?case by simp
next
  case (Cons x xs)
  show ?case
  proof (cases "f c < f x")
    case True
    have "find (\<lambda>z. \<forall>y \<in> set (c # x # xs). f y \<le> f z) (c # x # xs)
            = find (\<lambda>z. \<forall>y \<in> set (c # x # xs). f y \<le> f z) (x # xs)"
      using True by auto
    also have "\<dots> = find (\<lambda>z. \<forall>y \<in> set (x # xs). f y \<le> f z) (x # xs)"
      using True by (intro find_cong) auto
    also have "\<dots> = Some (fold (keep_max f) xs x)"
      by (rule Cons.IH)
    also have "\<dots> = Some (fold (keep_max f) (x # xs) c)"
      using True by (simp add: keep_max_def)
    finally show ?thesis .
  next
    case False
    have same: "(\<forall>y \<in> set (c # x # xs). f y \<le> f z) \<longleftrightarrow> (\<forall>y \<in> set (c # xs). f y \<le> f z)" for z
      using False by auto
    have "find (\<lambda>z. \<forall>y \<in> set (c # x # xs). f y \<le> f z) (c # x # xs)
            = find (\<lambda>z. \<forall>y \<in> set (c # xs). f y \<le> f z) (c # x # xs)"
      by (simp only: same)
    also have "\<dots> = find (\<lambda>z. \<forall>y \<in> set (c # xs). f y \<le> f z) (c # xs)"
      using False by auto
    also have "\<dots> = Some (fold (keep_max f) xs c)"
      by (rule Cons.IH)
    also have "\<dots> = Some (fold (keep_max f) (x # xs) c)"
      using False by (simp add: keep_max_def)
    finally show ?thesis .
  qed
qed

lemma fold_keep_max_hd:
  assumes "xs \<noteq> []"
  shows "first_max f xs = Some (fold (keep_max f) xs (hd xs))"
proof -
  obtain a ys where xs: "xs = a # ys"
    using assms by (cases xs) auto
  have "fold (keep_max f) xs (hd xs) = fold (keep_max f) ys a"
    by (simp add: xs keep_max_def)
  then show ?thesis
    using fold_keep_max_first [where f = f and c = a and xs = ys] by (simp add: first_max_def xs)
qed

text \<open>
  Claim C7. For every non-empty record list passed to \<^verbatim>\<open>NewQuery\<close>, each of the
  three max-metric fields (execution time, total queryable samples, peak samples) is the
  record that achieves the maximum of its metric, and among several records that tie for
  the maximum it is the first in input order (the comparison is a strict \<open>>\<close>).

  \<open>first_max f logs\<close> is the first element of \<open>logs\<close> on which \<open>f\<close> is maximal. The
  construction succeeds for a non-empty query and a non-empty list, keeps both, and its
  three fields are the three first maxima.
\<close>

theorem NewQuery_max_entries:
  assumes "query \<noteq> []" and "logs \<noteq> []"
  shows "\<exists>q. NewQuery query logs = Inr q \<and> Query_str q = query \<and> Logs q = logs
           \<and> first_max exec_total_time logs = Some (MaxExecTotalTimeEntry q)
           \<and> first_max total_queryable_samples logs = Some (MaxTotalQueryableSamplesEntry q)
           \<and> first_max peak_samples logs = Some (MaxPeakSamplesEntry q)"
  using assms by (simp add: NewQuery_def fold_max_step fold_keep_max_hd)

theorem NewQuery_max_entries_witness:
  "''up'' \<noteq> []
   \<and> [sample_entry ''up'' (Some 1) 1 7 1, sample_entry ''up'' (Some 2) 3 7 2,
       sample_entry ''up'' (Some 3) 3 2 3] \<noteq> []
   \<and> (\<exists>q. NewQuery ''up'' [sample_entry ''up'' (Some 1) 1 7 1, sample_entry ''up'' (Some 2) 3 7 2,
                            sample_entry ''up'' (Some 3) 3 2 3] = Inr q
          \<and> MaxExecTotalTimeEntry q = sample_entry ''up'' (Some 2) 3 7 2
          \<and> MaxTotalQueryableSamplesEntry q = sample_entry ''up'' (Some 1) 1 7 1
          \<and> MaxPeakSamplesEntry q = sample_entry ''up'' (Some 3) 3 2 3)"
proof -
  let ?a = "sample_entry ''up'' (Some 1) 1 7 1"
  let ?b = "sample_entry ''up'' (Some 2) 3 7 2"
  let ?c = "sample_entry ''up'' (Some 3) 3 2 3"
  have h1: "''up'' \<noteq> []" and h2: "[?a, ?b, ?c] \<noteq> []"
    by simp_all
  from NewQuery_max_entries [OF h1 h2] obtain q where q: "NewQuery ''up'' [?a, ?b, ?c] = Inr q"
    and e: "first_max exec_total_time [?a, ?b, ?c] = Some (MaxExecTotalTimeEntry q)"
    and t: "first_max total_queryable_samples [?a, ?b, ?c] = Some (MaxTotalQueryableSamplesEntry q)"
    and p: "first_max peak_samples [?a, ?b, ?c] = Some (MaxPeakSamplesEntry q)"
    by blast
  have "first_max exec_total_time [?a, ?b, ?c] = Some ?b"
    by (simp add: first_max_def sample_entry_def exec_total_time_def)
  moreover have "first_max total_queryable_samples [?a, ?b, ?c] = Some ?a"
    by (simp add: first_max_def sample_entry_def total_queryable_samples_def)
  moreover have "first_max peak_samples [?a, ?b, ?c] = Some ?c"
    by (simp add: first_max_def sample_entry_def peak_samples_def)
  ultimately show ?thesis
    using q e t p h1 h2 by simp
qed

section \<open>Properties of the scanning loop\<close>

subsection \<open>The time window\<close>

lemma outside_window_Some:
  "TS entry = Some ts \<Longrightarrow> outside_window tfrom tto entry = Inr (\<not> in_window tfrom tto ts)"
  by (auto simp: outside_window_def ts_Before_def ts_After_def in_window_def split: option.splits)

lemma outside_window_None:
  "TS entry = None \<Longrightarrow>
     outside_window tfrom tto entry =
       (if tfrom = None \<and> tto = None then Inr False else Inl PanicNilDereference)"
  by (auto simp: outside_window_def ts_Before_def ts_After_def split: option.splits)

subsection \<open>The scanning loop\<close>

lemma scan_lines_append:
  "scan_lines U C tfrom tto n (pre @ post) st =
     (case scan_lines U C tfrom tto n pre st of
        Inl e \<Rightarrow> Inl e
      | Inr st' \<Rightarrow> scan_lines U C tfrom tto (n + length pre) post st')"
  by (induction pre arbitrary: n st) (simp_all split: sum.split)

lemma scan_lines_no_crash:
  assumes "\<forall>l \<in> set ls. \<forall>e. U l = Inr e \<longrightarrow> carries_ts e"
    and "\<And>e c. TS e \<noteq> None \<Longrightarrow> \<exists>c'. C e c = Inr c'"
  shows "(\<exists>st'. scan_lines U C tfrom tto n ls st = Inr st')
           \<or> (\<exists>k err. scan_lines U C tfrom tto n ls st = Inl (FailedToParseLine k err))"
  using assms(1)
proof (induction ls arbitrary: n st)
  case Nil
  show ?case by simp
next
  case (Cons l ls)
  show ?case
  proof (cases "U l")
    case (Inl err)
    then show ?thesis by simp
  next
    case (Inr e)
    show ?thesis
    proof (cases "Query (Params e) = []")
      case True
      then show ?thesis
        using Inr Cons.IH Cons.prems by simp
    next
      case False
      then obtain ts where ts: "TS e = Some ts"
        using Inr Cons.prems by (auto simp: carries_ts_def)
      obtain c' where "C e (collected st) = Inr c'"
        using assms(2) [of e "collected st"] ts by auto
      then show ?thesis
        using Inr False ts Cons.IH Cons.prems by (simp add: outside_window_Some)
    qed
  qed
qed

lemma scan_lines_ok:
  assumes "\<forall>l \<in> set ls. \<exists>e. U l = Inr e \<and> carries_ts e"
    and "\<And>e c. TS e \<noteq> None \<Longrightarrow> \<exists>c'. C e c = Inr c'"
  shows "\<exists>st'. scan_lines U C tfrom tto n ls st = Inr st'"
  using assms(1)
proof (induction ls arbitrary: n st)
  case Nil
  show ?case by simp
next
  case (Cons l ls)
  then obtain e where e: "U l = Inr e" "carries_ts e"
    by auto
  show ?case
  proof (cases "Query (Params e) = []")
    case True
    then show ?thesis
      using e Cons.IH Cons.prems by simp
  next
    case False
    then obtain ts where ts: "TS e = Some ts"
      using e by (auto simp: carries_ts_def)
    obtain c' where "C e (collected st) = Inr c'"
      using assms(2) [of e "collected st"] ts by auto
    then show ?thesis
      using e False ts Cons.IH Cons.prems by (simp add: outside_window_Some)
  qed
qed

lemma append_log_total: "\<exists>c'. append_log e c = Inr c'"
  by (simp add: append_log_def)

lemma update_stats_total: "TS e \<noteq> None \<Longrightarrow> \<exists>c'. update_stats e c = Inr c'"
  by (auto simp: update_stats_def Let_def)

lemma load_state_update_swap:
  "st\<lparr>warnings := w, qMap := a, collected := c\<rparr> = st\<lparr>qMap := a, collected := c, warnings := w\<rparr>"
  by (cases st) simp

lemma scan_lines_shift:
  "scan_lines U C tfrom tto n ls st = Inr st' \<Longrightarrow>
     \<exists>w'. scan_lines U C tfrom tto n' ls (st\<lparr>warnings := w\<rparr>) = Inr (st'\<lparr>warnings := w'\<rparr>)
           \<and> set w \<subseteq> set w'"
proof (induction ls arbitrary: n n' st w)
  case Nil
  then show ?case by auto
next
  case (Cons l ls)
  show ?case
  proof (cases "U l")
    case (Inl err)
    then show ?thesis using Cons.prems by simp
  next
    case (Inr e)
    show ?thesis
    proof (cases "Query (Params e) = []")
      case True
      then have "scan_lines U C tfrom tto (Suc n) ls (st\<lparr>warnings := warnings st @ [n]\<rparr>) = Inr st'"
        using Cons.prems Inr by simp
      from Cons.IH [OF this, of "Suc n'" "w @ [n']"]
      show ?thesis using Inr True by auto
    next
      case False
      show ?thesis
      proof (cases "outside_window tfrom tto e")
        case (Inl err)
        then show ?thesis using Cons.prems Inr False by simp
      next
        case skip: (Inr skip)
        show ?thesis
        proof (cases skip)
          case True
          then have "scan_lines U C tfrom tto (Suc n) ls st = Inr st'"
            using Cons.prems Inr False skip by simp
          from Cons.IH [OF this, of "Suc n'" w]
          show ?thesis using Inr False skip True by simp
        next
          case noskip: False
          show ?thesis
          proof (cases "C e (collected st)")
            case (Inl err)
            then show ?thesis using Cons.prems Inr False skip noskip by simp
          next
            case c: (Inr c)
            then have "scan_lines U C tfrom tto (Suc n) ls
                (st\<lparr>qMap := qMap_append (qMap st) (Query (Params e)) e, collected := c\<rparr>) = Inr st'"
              using Cons.prems Inr False skip noskip by simp
            from Cons.IH [OF this, of "Suc n'" w]
            show ?thesis using Inr False skip noskip c by (simp add: load_state_update_swap)
          qed
        qed
      qed
    qed
  qed
qed

subsection \<open>What a successful scan leaves behind\<close>

lemma scan_lines_invariant:
  assumes "scan_lines U C tfrom tto n ls st = Inr st'"
    and "\<And>es e c c' m. I es c m \<Longrightarrow> survives tfrom tto e \<Longrightarrow> C e c = Inr c' \<Longrightarrow>
           I (es @ [e]) c' (qMap_append m (Query (Params e)) e)"
    and "I es (collected st) (qMap st)"
  shows "I (es @ filter (survives tfrom tto) (decoded U ls)) (collected st') (qMap st')"
  using assms(1,3)
proof (induction ls arbitrary: n st es)
  case Nil
  then show ?case by (simp add: decoded_def)
next
  case (Cons l ls)
  show ?case
  proof (cases "U l")
    case (Inl err)
    then show ?thesis using Cons.prems by simp
  next
    case (Inr e)
    have dec: "decoded U (l # ls) = e # decoded U ls"
      using Inr by (simp add: decoded_def)
    show ?thesis
    proof (cases "Query (Params e) = []")
      case True
      then have "scan_lines U C tfrom tto (Suc n) ls (st\<lparr>warnings := warnings st @ [n]\<rparr>) = Inr st'"
        using Cons.prems Inr by simp
      from Cons.IH [OF this, of es] show ?thesis
        using True Cons.prems(2) by (simp add: dec survives_def)
    next
      case False
      show ?thesis
      proof (cases "outside_window tfrom tto e")
        case (Inl err)
        then show ?thesis using Cons.prems Inr False by simp
      next
        case skip: (Inr skip)
        have sv: "survives tfrom tto e \<longleftrightarrow> \<not> skip"
        proof (cases "TS e")
          case None
          then show ?thesis
            using skip False by (auto simp: outside_window_None survives_def split: if_splits)
        next
          case (Some ts)
          then show ?thesis
            using skip False by (auto simp: outside_window_Some survives_def)
        qed
        show ?thesis
        proof (cases skip)
          case True
          then have "scan_lines U C tfrom tto (Suc n) ls st = Inr st'"
            using Cons.prems Inr False skip by simp
          from Cons.IH [OF this, of es] show ?thesis
            using True sv Cons.prems(2) by (simp add: dec)
        next
          case noskip: False
          show ?thesis
          proof (cases "C e (collected st)")
            case (Inl err)
            then show ?thesis using Cons.prems Inr False skip noskip by simp
          next
            case c: (Inr c)
            then have run: "scan_lines U C tfrom tto (Suc n) ls
                (st\<lparr>qMap := qMap_append (qMap st) (Query (Params e)) e, collected := c\<rparr>) = Inr st'"
              using Cons.prems Inr False skip noskip by simp
            have "I (es @ [e]) c (qMap_append (qMap st) (Query (Params e)) e)"
              using assms(2) [OF Cons.prems(2) _ c] sv noskip by simp
            from Cons.IH [OF run, of "es @ [e]"] this show ?thesis
              using noskip sv by (simp add: dec)
          qed
        qed
      qed
    qed
  qed
qed


lemma scan_lines_Inr:
  assumes "scan_lines U append_log tfrom tto n ls st = Inr st'"
  shows "collected st' = collected st @ filter (survives tfrom tto) (decoded U ls)
       \<and> qMap st' = fold (\<lambda>e m. qMap_append m (Query (Params e)) e)
                       (filter (survives tfrom tto) (decoded U ls)) (qMap st)"
proof -
  let ?I = "\<lambda>es c m. c = collected st @ es
                \<and> m = fold (\<lambda>e m. qMap_append m (Query (Params e)) e) es (qMap st)"
  have "?I ([] @ filter (survives tfrom tto) (decoded U ls)) (collected st') (qMap st')"
  proof (rule scan_lines_invariant [OF assms, where I = ?I])
    fix es e c c' m
    assume "?I es c m" and "survives tfrom tto e" and "append_log e c = Inr c'"
    then show "?I (es @ [e]) c' (qMap_append m (Query (Params e)) e)"
      by (simp add: append_log_def)
  next
    show "?I [] (collected st) (qMap st)"
      by simp
  qed
  then show ?thesis
    by simp
qed

subsection \<open>Grouping by query\<close>

lemma map_of_qMap_append:
  "map_of (qMap_append m k e) =
     (map_of m)(k \<mapsto> (case map_of m k of None \<Rightarrow> [] | Some v \<Rightarrow> v) @ [e])"
  by (simp add: qMap_append_def update_conv')

lemma distinct_qMap_append:
  "distinct (map fst m) \<Longrightarrow> distinct (map fst (qMap_append m k e))"
  by (simp add: qMap_append_def distinct_update)

lemma sum_mset_qMap_append:
  "sum_list (map (\<lambda>p. mset (snd p)) (qMap_append m k e)) = sum_list (map (\<lambda>p. mset (snd p)) m) + {#e#}"
  unfolding qMap_append_def
  by (induction m) auto

lemma group_snoc:
  "fold (\<lambda>e m. qMap_append m (Query (Params e)) e) (es @ [e]) m0
     = qMap_append (fold (\<lambda>e m. qMap_append m (Query (Params e)) e) es m0) (Query (Params e)) e"
  by simp

lemma group_distinct:
  "distinct (map fst (fold (\<lambda>e m. qMap_append m (Query (Params e)) e) es []))"
  by (induction es rule: rev_induct) (simp_all add: distinct_qMap_append)

lemma group_map_of:
  "map_of (fold (\<lambda>e m. qMap_append m (Query (Params e)) e) es []) k =
     (if \<exists>e \<in> set es. Query (Params e) = k
      then Some (filter (\<lambda>e. Query (Params e) = k) es) else None)"
proof (induction es rule: rev_induct)
  case Nil
  show ?case by simp
next
  case (snoc e es)
  show ?case
    unfolding group_snoc map_of_qMap_append
    using snoc.IH
    by (auto simp: filter_empty_conv)
qed

lemma group_sum:
  "sum_list (map (\<lambda>p. mset (snd p)) (fold (\<lambda>e m. qMap_append m (Query (Params e)) e) es [])) = mset es"
  by (induction es rule: rev_induct) (simp_all add: sum_mset_qMap_append)

lemma group_bucket:
  assumes "(k, v) \<in> set (fold (\<lambda>e m. qMap_append m (Query (Params e)) e) es [])"
  shows "v = filter (\<lambda>e. Query (Params e) = k) es \<and> v \<noteq> []"
proof -
  have "map_of (fold (\<lambda>e m. qMap_append m (Query (Params e)) e) es []) k = Some v"
    using assms group_distinct [of es] by simp
  then show ?thesis
    by (auto simp: group_map_of filter_empty_conv split: if_splits)
qed

subsection \<open>Building the queries\<close>

lemma NewQuery_ok:
  "query \<noteq> [] \<Longrightarrow> logs \<noteq> [] \<Longrightarrow>
     \<exists>q. NewQuery query logs = Inr q \<and> Query_str q = query \<and> Logs q = logs"
  by (simp add: NewQuery_def split: prod.split)

lemma NewQuery_Inr:
  "NewQuery query logs = Inr q \<Longrightarrow> Query_str q = query \<and> Logs q = logs"
  by (auto simp: NewQuery_def split: if_splits prod.splits)

lemma build_queries_Inr:
  "build_queries m = Inr qs \<Longrightarrow> map (\<lambda>q. (Query_str q, Logs q)) qs = m"
proof (induction m arbitrary: qs)
  case Nil
  then show ?case by simp
next
  case (Cons p m)
  obtain k v where p: "p = (k, v)" by (cases p)
  from Cons.prems obtain q qs' where q: "NewQuery k v = Inr q"
    and qs': "build_queries m = Inr qs'" and qs: "qs = q # qs'"
    by (auto simp: p split: sum.splits)
  show ?case
    using Cons.IH [OF qs'] NewQuery_Inr [OF q] by (simp add: qs p)
qed

lemma build_queries_ok:
  "\<forall>p \<in> set m. fst p \<noteq> [] \<and> snd p \<noteq> [] \<Longrightarrow> \<exists>qs. build_queries m = Inr qs"
proof (induction m)
  case Nil
  show ?case by simp
next
  case (Cons p m)
  obtain k v where p: "p = (k, v)" by (cases p)
  obtain q where "NewQuery k v = Inr q"
    using NewQuery_ok [of k v] Cons.prems by (auto simp: p)
  moreover obtain qs where "build_queries m = Inr qs"
    using Cons by auto
  ultimately show ?case by (simp add: p)
qed

lemma update_set:
  "p \<in> set (AList.update k v m) \<Longrightarrow> p \<in> set m \<or> p = (k, v)"
  by (induction m) (auto split: if_splits)

lemma qMap_append_buckets:
  assumes "\<forall>p \<in> set m. fst p \<noteq> [] \<and> snd p \<noteq> []" and "k \<noteq> []"
  shows "\<forall>p \<in> set (qMap_append m k e). fst p \<noteq> [] \<and> snd p \<noteq> []"
  using assms update_set [of _ k "(case map_of m k of None \<Rightarrow> [] | Some v \<Rightarrow> v) @ [e]" m]
  by (fastforce simp: qMap_append_def)

lemma scan_lines_buckets:
  assumes "scan_lines U C tfrom tto n ls st = Inr st'"
    and "\<forall>p \<in> set (qMap st). fst p \<noteq> [] \<and> snd p \<noteq> []"
  shows "\<forall>p \<in> set (qMap st'). fst p \<noteq> [] \<and> snd p \<noteq> []"
  using assms
proof (induction ls arbitrary: n st)
  case Nil
  then show ?case by simp
next
  case (Cons l ls)
  show ?case
  proof (cases "U l")
    case (Inl err)
    then show ?thesis using Cons.prems by simp
  next
    case (Inr e)
    show ?thesis
    proof (cases "Query (Params e) = []")
      case True
      then have "scan_lines U C tfrom tto (Suc n) ls (st\<lparr>warnings := warnings st @ [n]\<rparr>) = Inr st'"
        using Cons.prems Inr by simp
      from Cons.IH [OF this] show ?thesis
        using Cons.prems(2) by simp
    next
      case False
      show ?thesis
      proof (cases "outside_window tfrom tto e")
        case (Inl err)
        then show ?thesis using Cons.prems Inr False by simp
      next
        case skip: (Inr skip)
        show ?thesis
        proof (cases skip)
          case True
          then have "scan_lines U C tfrom tto (Suc n) ls st = Inr st'"
            using Cons.prems Inr False skip by simp
          from Cons.IH [OF this] show ?thesis
            using Cons.prems(2) by simp
        next
          case noskip: False
          show ?thesis
          proof (cases "C e (collected st)")
            case (Inl err)
            then show ?thesis using Cons.prems Inr False skip noskip by simp
          next
            case c: (Inr c)
            then have "scan_lines U C tfrom tto (Suc n) ls
                (st\<lparr>qMap := qMap_append (qMap st) (Query (Params e)) e, collected := c\<rparr>) = Inr st'"
              using Cons.prems Inr False skip noskip by simp
            from Cons.IH [OF this] show ?thesis
              using qMap_append_buckets [OF Cons.prems(2) False] by simp
          qed
        qed
      qed
    qed
  qed
qed

lemma permutes_set: "permutes ord \<Longrightarrow> set (ord m) = set m"
  by (metis permutes_def mset_eq_setD)

subsection \<open>The result of a successful load\<close>

lemma LoadQueriesFromLog_Inr:
  assumes "LoadQueriesFromLog U ord tfrom tto lines scan_err = Inr (queries, logs, ws)"
  shows "logs = filter (survives tfrom tto) (decoded U lines)"
    and "map (\<lambda>q. (Query_str q, Logs q)) queries
           = ord (fold (\<lambda>e m. qMap_append m (Query (Params e)) e) logs [])"
proof -
  from assms obtain st where
    st: "scan_lines U append_log tfrom tto 0 lines \<lparr>qMap = [], collected = [], warnings = []\<rparr> = Inr st"
    and bq: "build_queries (ord (qMap st)) = Inr queries" and lg: "logs = collected st"
    by (auto simp: LoadQueriesFromLog_def split: sum.splits option.splits)
  from scan_lines_Inr [OF st] show "logs = filter (survives tfrom tto) (decoded U lines)"
    by (simp add: lg)
  from scan_lines_Inr [OF st] build_queries_Inr [OF bq]
  show "map (\<lambda>q. (Query_str q, Logs q)) queries
           = ord (fold (\<lambda>e m. qMap_append m (Query (Params e)) e) logs [])"
    by (simp add: lg)
qed

lemma groups_of_load:
  assumes "LoadQueriesFromLog U ord tfrom tto lines scan_err = Inr (queries, logs, ws)"
    and "permutes ord"
  shows "sum_list (map (\<lambda>q. mset (Logs q)) queries) = mset logs"
    and "distinct (map Query_str queries)"
    and "\<forall>q \<in> set queries. Logs q = filter (\<lambda>e. Query (Params e) = Query_str q) logs \<and> Logs q \<noteq> []"
proof -
  let ?m = "fold (\<lambda>e m. qMap_append m (Query (Params e)) e) logs []"
  have eq: "map (\<lambda>q. (Query_str q, Logs q)) queries = ord ?m"
    by (rule LoadQueriesFromLog_Inr(2) [OF assms(1)])
  have perm: "mset (ord ?m) = mset ?m"
    using assms(2) by (simp add: permutes_def)
  have "sum_list (map (\<lambda>q. mset (Logs q)) queries)
          = sum_list (map (\<lambda>p. mset (snd p)) (map (\<lambda>q. (Query_str q, Logs q)) queries))"
    by (simp add: comp_def)
  also have "\<dots> = sum_mset (image_mset (\<lambda>p. mset (snd p)) (mset (ord ?m)))"
    by (simp only: eq sum_mset_sum_list [symmetric] mset_map)
  also have "\<dots> = sum_list (map (\<lambda>p. mset (snd p)) ?m)"
    by (simp only: perm sum_mset_sum_list [symmetric] mset_map)
  finally show "sum_list (map (\<lambda>q. mset (Logs q)) queries) = mset logs"
    by (simp add: group_sum)
  have "map Query_str queries = map fst (map (\<lambda>q. (Query_str q, Logs q)) queries)"
    by (simp add: comp_def)
  then have keys: "map Query_str queries = map fst (ord ?m)"
    by (simp only: eq)
  have "mset (map fst (ord ?m)) = mset (map fst ?m)"
    by (simp only: mset_map perm)
  then have "distinct (map fst (ord ?m)) = distinct (map fst ?m)"
    by (rule mset_eq_imp_distinct_iff)
  then show "distinct (map Query_str queries)"
    by (simp add: keys group_distinct)
  show "\<forall>q \<in> set queries. Logs q = filter (\<lambda>e. Query (Params e) = Query_str q) logs \<and> Logs q \<noteq> []"
  proof
    fix q assume "q \<in> set queries"
    then have "(Query_str q, Logs q) \<in> set (map (\<lambda>q. (Query_str q, Logs q)) queries)"
      by auto
    then have "(Query_str q, Logs q) \<in> set ?m"
      using permutes_set [OF assms(2), of ?m] by (simp only: eq)
    then show "Logs q = filter (\<lambda>e. Query (Params e) = Query_str q) logs \<and> Logs q \<noteq> []"
      by (rule group_bucket)
  qed
qed

lemma load_total:
  assumes "\<forall>l \<in> set lines. \<exists>e. U l = Inr e \<and> carries_ts e" and "permutes ord"
  shows "\<exists>queries logs ws. LoadQueriesFromLog U ord tfrom tto lines None = Inr (queries, logs, ws)"
proof -
  obtain st where
    st: "scan_lines U append_log tfrom tto 0 lines \<lparr>qMap = [], collected = [], warnings = []\<rparr> = Inr st"
    using scan_lines_ok [OF assms(1), of append_log] append_log_total by blast
  have "\<forall>p \<in> set (qMap st). fst p \<noteq> [] \<and> snd p \<noteq> []"
    using scan_lines_buckets [OF st] by simp
  then obtain qs where "build_queries (ord (qMap st)) = Inr qs"
    using build_queries_ok [of "ord (qMap st)"] permutes_set [OF assms(2)] by auto
  then show ?thesis
    by (simp add: LoadQueriesFromLog_def st)
qed

lemma update_stats_Inr:
  assumes "update_stats e c = Inr c'"
  shows "\<exists>ts. TS e = Some ts \<and> Num c' = Num c + 1 \<and> From c' = min ts (From c) \<and> To c' = max ts (To c)"
proof (cases "TS e")
  case None
  then show ?thesis
    using assms by (simp add: update_stats_def Let_def)
next
  case (Some ts)
  then have "Num c' = Num c + 1 \<and> From c' = min ts (From c) \<and> To c' = max ts (To c)"
    using assms by (auto simp: update_stats_def Let_def min_def max_def split: if_splits)
  then show ?thesis
    using Some by simp
qed

text \<open>
  What the version with \<^verbatim>\<open>LoadStats\<close> returns when it succeeds: the count of the
  surviving records, and as \<^verbatim>\<open>From\<close> and \<^verbatim>\<open>To\<close> the least and the greatest of
  their timestamps together with the starting values, the clock reading and the zero time.
\<close>

lemma load_stats_of_load:
  assumes "LoadQueriesFromLog_LoadStats U ord now tfrom tto lines scan_err = Inr (queries, stats, ws)"
  shows "Num stats = int (length (filter (survives tfrom tto) (decoded U lines)))
       \<and> From stats = Min (insert now (the ` TS ` set (filter (survives tfrom tto) (decoded U lines))))
       \<and> To stats = Max (insert zero_time (the ` TS ` set (filter (survives tfrom tto) (decoded U lines))))"
proof -
  let ?I = "\<lambda>(es :: LogEntry list) (c :: LoadStats) (m :: (string \<times> LogEntry list) list). Num c = int (length es) \<and> From c = Min (insert now (the ` TS ` set es))
                  \<and> To c = Max (insert zero_time (the ` TS ` set es))"
  from assms obtain st where
    st: "scan_lines U update_stats tfrom tto 0 lines
           \<lparr>qMap = [], collected = \<lparr>Num = 0, From = now, To = zero_time\<rparr>, warnings = []\<rparr> = Inr st"
    and s: "stats = collected st"
    by (auto simp: LoadQueriesFromLog_LoadStats_def split: sum.splits option.splits)
  have step: "?I (es @ [e]) c' m'" if "?I es c m" and "update_stats e c = Inr c'" for es e m m' and c c' :: LoadStats
  proof -
    from update_stats_Inr [OF that(2)] obtain ts where ts: "TS e = Some ts"
      and u: "Num c' = Num c + 1" "From c' = min ts (From c)" "To c' = max ts (To c)"
      by blast
    let ?A = "the ` TS ` set es"
    have e1: "insert now (the ` TS ` set (es @ [e])) = insert ts (insert now ?A)"
      by (auto simp: ts)
    have e2: "insert zero_time (the ` TS ` set (es @ [e])) = insert ts (insert zero_time ?A)"
      by (auto simp: ts)
    have "Min (insert ts (insert now ?A)) = min ts (Min (insert now ?A))"
      by (rule Min_insert) simp_all
    then have m1: "Min (insert now (the ` TS ` set (es @ [e]))) = min ts (Min (insert now ?A))"
      by (simp only: e1)
    have "Max (insert ts (insert zero_time ?A)) = max ts (Max (insert zero_time ?A))"
      by (rule Max_insert) simp_all
    then have m2: "Max (insert zero_time (the ` TS ` set (es @ [e]))) = max ts (Max (insert zero_time ?A))"
      by (simp only: e2)
    have "Num c' = int (length (es @ [e]))"
      using that(1) u(1) by simp
    moreover have "From c' = Min (insert now (the ` TS ` set (es @ [e])))"
      using that(1) u(2) by (simp only: m1)
    moreover have "To c' = Max (insert zero_time (the ` TS ` set (es @ [e])))"
      using that(1) u(3) by (simp only: m2)
    ultimately show ?thesis
      by blast
  qed
  have "?I ([] @ filter (survives tfrom tto) (decoded U lines)) (collected st) (qMap st)"
  proof (rule scan_lines_invariant [OF st, where I = ?I])
    fix es e m and c c' :: LoadStats
    assume "?I es c m" and "survives tfrom tto e" and "update_stats e c = Inr c'"
    from step [OF this(1) this(3)]
    show "?I (es @ [e]) c' (qMap_append m (Query (Params e)) e)" .
  next
    show "?I [] (collected \<lparr>qMap = [], collected = \<lparr>Num = 0, From = now, To = zero_time\<rparr>,
          warnings = []\<rparr>)
        (qMap \<lparr>qMap = [], collected = \<lparr>Num = 0, From = now, To = zero_time\<rparr>,
          warnings = []\<rparr>)"
      by simp
  qed
  then show ?thesis
    by (simp add: s)
qed

lemma scan_prefix_then:
  assumes "\<forall>l \<in> set pre. \<exists>e. U l = Inr e \<and> carries_ts e"
    and "\<And>e c. TS e \<noteq> None \<Longrightarrow> \<exists>c'. C e c = Inr c'"
  shows "\<exists>st1. scan_lines U C tfrom tto 0 (pre @ rest) st
                 = scan_lines U C tfrom tto (length pre) rest st1"
proof -
  obtain st1 where "scan_lines U C tfrom tto 0 pre st = Inr st1"
    using scan_lines_ok [OF assms(1), of C] assms(2) by blast
  then show ?thesis
    by (auto simp: scan_lines_append)
qed

lemma map_order_permutes: "permutes map_order"
  by (simp add: permutes_def map_order_def)

section \<open>Properties of LoadQueriesFromLog\<close>

text \<open>
  Claim C3. For every input that contains a line which does not parse, the aggregation
  stops at the first such line and fails with an error that carries the 1-based line
  number of that line; no record after it is processed.

  The counter of the loop starts at 0 (\<^verbatim>\<open>for lineNum := 0; scanner.Scan(); lineNum++\<close>)
  and is what the error carries: for a malformed first line it is 0, where the claim has 1.
\<close>

theorem first_line_number_counterexample:
  "LoadQueriesFromLog decode_sample map_order None None
      [Inl ''unexpected end of JSON input'', Inr (sample_entry ''up'' (Some 1) 1 1 1)] None
     = Inl (FailedToParseLine 0 ''unexpected end of JSON input'')"
  by code_simp

text \<open>
  Claim C3, amended. When the lines before the first line that does not parse all carry a
  timestamp (so that none of them crashes the run), the aggregation fails at that line
  with \<open>FailedToParseLine\<close> carrying the 0-based index of the line, that is the number
  of lines before it, and the decoder's error; the result is the same whatever follows
  the line, so nothing after it is processed. This holds for the newest version and for
  the version with \<^verbatim>\<open>LoadStats\<close>.
\<close>

theorem malformed_line_aborts:
  assumes "\<forall>l' \<in> set pre. \<exists>e. U l' = Inr e \<and> carries_ts e"
    and "U l = Inl err"
  shows "LoadQueriesFromLog U ord tfrom tto (pre @ l # post) scan_err
           = Inl (FailedToParseLine (length pre) err)
       \<and> LoadQueriesFromLog_LoadStats U ord now tfrom tto (pre @ l # post) scan_err
           = Inl (FailedToParseLine (length pre) err)"
proof -
  obtain st1 where "scan_lines U append_log tfrom tto 0 (pre @ l # post)
        \<lparr>qMap = [], collected = [], warnings = []\<rparr>
      = scan_lines U append_log tfrom tto (length pre) (l # post) st1"
    using scan_prefix_then [OF assms(1), of append_log] append_log_total by blast
  then have a: "scan_lines U append_log tfrom tto 0 (pre @ l # post)
        \<lparr>qMap = [], collected = [], warnings = []\<rparr> = Inl (FailedToParseLine (length pre) err)"
    using assms(2) by simp
  obtain st2 where "scan_lines U update_stats tfrom tto 0 (pre @ l # post)
        \<lparr>qMap = [], collected = \<lparr>Num = 0, From = now, To = zero_time\<rparr>, warnings = []\<rparr>
      = scan_lines U update_stats tfrom tto (length pre) (l # post) st2"
    using scan_prefix_then [OF assms(1), of update_stats] update_stats_total by blast
  then have b: "scan_lines U update_stats tfrom tto 0 (pre @ l # post)
        \<lparr>qMap = [], collected = \<lparr>Num = 0, From = now, To = zero_time\<rparr>, warnings = []\<rparr>
      = Inl (FailedToParseLine (length pre) err)"
    using assms(2) by simp
  show ?thesis
    by (simp add: LoadQueriesFromLog_def LoadQueriesFromLog_LoadStats_def a b)
qed

theorem malformed_line_aborts_witness:
  "decode_sample (Inl ''bad'') = Inl ''bad''
   \<and> LoadQueriesFromLog decode_sample map_order None None
        ([Inr (sample_entry ''up'' (Some 1) 1 1 1)] @ Inl ''bad'' # [Inr (sample_entry ''up'' (Some 2) 1 1 1)]) None
       = Inl (FailedToParseLine 1 ''bad'')
   \<and> LoadQueriesFromLog_LoadStats decode_sample map_order 100 None None
        ([Inr (sample_entry ''up'' (Some 1) 1 1 1)] @ Inl ''bad'' # [Inr (sample_entry ''up'' (Some 2) 1 1 1)]) None
       = Inl (FailedToParseLine 1 ''bad'')"
proof -
  have h1: "\<forall>l' \<in> set [Inr (sample_entry ''up'' (Some 1) 1 1 1)].
              \<exists>e. decode_sample l' = Inr e \<and> carries_ts e"
    by (simp add: decode_sample_def carries_ts_def sample_entry_def)
  have h2: "decode_sample (Inl ''bad'') = Inl ''bad''"
    by (simp add: decode_sample_def)
  from malformed_line_aborts [OF h1 h2, where ord = map_order and tfrom = None and tto = None
      and post = "[Inr (sample_entry ''up'' (Some 2) 1 1 1)]" and scan_err = None and now = 100]
  show ?thesis
    using h1 h2 by simp
qed

text \<open>
  Claim C4. A line that parses but whose query field is empty is skipped with a warning
  and the run continues: the record contributes to no group and to no filtered record,
  and the run does not abort.

  In the loop, whatever its state and whatever follows, such a line does nothing but add
  a warning with its line number, and the loop goes on with the next line: the map and
  the filtered records are untouched. For the whole run: put such a line anywhere into an
  input that loads successfully, and the load still succeeds, with the same queries and
  the same filtered records, and the warnings now include the number of that line.
\<close>

theorem empty_query_skipped:
  assumes "U l = Inr entry" and "Query (Params entry) = []"
    and "LoadQueriesFromLog U ord tfrom tto (pre @ post) scan_err = Inr (queries, logs, ws)"
  shows "scan_lines U collect tfrom tto n (l # rest) st
           = scan_lines U collect tfrom tto (Suc n) rest (st\<lparr>warnings := warnings st @ [n]\<rparr>)
       \<and> (\<exists>ws'. LoadQueriesFromLog U ord tfrom tto (pre @ l # post) scan_err = Inr (queries, logs, ws')
               \<and> length pre \<in> set ws')"
proof
  show "scan_lines U collect tfrom tto n (l # rest) st
          = scan_lines U collect tfrom tto (Suc n) rest (st\<lparr>warnings := warnings st @ [n]\<rparr>)"
    using assms(1,2) by simp
next
  let ?init = "\<lparr>qMap = [], collected = [] :: LogEntry list, warnings = []\<rparr>"
  from assms(3) obtain st where
    st: "scan_lines U append_log tfrom tto 0 (pre @ post) ?init = Inr st"
    and se: "scan_err = None"
    and bq: "build_queries (ord (qMap st)) = Inr queries"
    and lg: "logs = collected st" and w: "ws = warnings st"
    by (auto simp: LoadQueriesFromLog_def split: sum.splits option.splits)
  from st obtain st1 where
    st1: "scan_lines U append_log tfrom tto 0 pre ?init = Inr st1"
    and post: "scan_lines U append_log tfrom tto (length pre) post st1 = Inr st"
    by (auto simp: scan_lines_append split: sum.splits)
  from scan_lines_shift [OF post, of "Suc (length pre)" "warnings st1 @ [length pre]"]
  obtain w' where
    post': "scan_lines U append_log tfrom tto (Suc (length pre)) post
              (st1\<lparr>warnings := warnings st1 @ [length pre]\<rparr>) = Inr (st\<lparr>warnings := w'\<rparr>)"
    and sub: "set (warnings st1 @ [length pre]) \<subseteq> set w'"
    by blast
  have "scan_lines U append_log tfrom tto 0 (pre @ l # post) ?init = Inr (st\<lparr>warnings := w'\<rparr>)"
    using st1 post' assms(1,2) by (simp add: scan_lines_append)
  then have "LoadQueriesFromLog U ord tfrom tto (pre @ l # post) scan_err = Inr (queries, logs, w')"
    by (simp add: LoadQueriesFromLog_def se bq lg)
  moreover have "length pre \<in> set w'"
    using sub by auto
  ultimately show "\<exists>ws'. LoadQueriesFromLog U ord tfrom tto (pre @ l # post) scan_err
      = Inr (queries, logs, ws') \<and> length pre \<in> set ws'"
    by blast
qed

theorem empty_query_skipped_witness:
  "decode_sample (Inr (sample_entry [] (Some 5) 1 1 1)) = Inr (sample_entry [] (Some 5) 1 1 1)
   \<and> Query (Params (sample_entry [] (Some 5) 1 1 1)) = []
   \<and> LoadQueriesFromLog decode_sample map_order None None ([] @ []) None = Inr ([], [], [])
   \<and> (\<exists>ws'. LoadQueriesFromLog decode_sample map_order None None
               ([] @ Inr (sample_entry [] (Some 5) 1 1 1) # []) None = Inr ([], [], ws')
             \<and> length ([] :: (string + LogEntry) list) \<in> set ws')"
proof -
  have h1: "decode_sample (Inr (sample_entry [] (Some 5) 1 1 1)) = Inr (sample_entry [] (Some 5) 1 1 1)"
    by (simp add: decode_sample_def)
  have h2: "Query (Params (sample_entry [] (Some 5) 1 1 1)) = []"
    by (simp add: sample_entry_def)
  have h3: "LoadQueriesFromLog decode_sample map_order None None ([] @ []) None = Inr ([], [], [])"
    by (simp add: LoadQueriesFromLog_def map_order_def)
  from empty_query_skipped [OF h1 h2 h3]
  show ?thesis
    using h1 h2 h3 by simp
qed

text \<open>
  The scenario of the specification: one record with an empty query gives no group, no
  filtered record and one warning (for line 0), not an error.
\<close>

lemma load_empty_query_only:
  "LoadQueriesFromLog decode_sample map_order None None [Inr (sample_entry [] None 0 0 0)] None
     = Inr ([], [], [0])"
  by code_simp

text \<open>
  Claim C5. The time-window filter retains exactly the decoded records whose timestamp
  lies in the inclusive range: a record whose timestamp equals \<open>from\<close> or \<open>to\<close> is
  kept, a record strictly before \<open>from\<close> (when set) or strictly after \<open>to\<close> (when
  set) is excluded from all further processing.

  \<open>in_window tfrom tto ts\<close> is \<open>from \<le> ts \<le> to\<close>, each bound only when set, and
  \<open>survives\<close> adds that the query is not empty. The filtered records of a successful
  load are exactly the decoded records that survive, in the order of arrival, and every
  record of every group is one of them.
\<close>

theorem time_window_inclusive:
  assumes "LoadQueriesFromLog U ord tfrom tto lines scan_err = Inr (queries, logs, ws)"
    and "permutes ord"
  shows "logs = filter (survives tfrom tto) (decoded U lines)
       \<and> (\<forall>q \<in> set queries. \<forall>e \<in> set (Logs q). survives tfrom tto e)"
proof -
  have l: "logs = filter (survives tfrom tto) (decoded U lines)"
    by (rule LoadQueriesFromLog_Inr(1) [OF assms(1)])
  have "\<forall>q \<in> set queries. set (Logs q) \<subseteq> set logs"
    using groups_of_load(3) [OF assms] by (metis filter_is_subset)
  then show ?thesis
    using l by auto
qed

theorem time_window_inclusive_witness:
  "permutes map_order
   \<and> (\<exists>queries ws.
        LoadQueriesFromLog decode_sample map_order (Some 10) (Some 20)
          [Inr (sample_entry ''up'' (Some 9) 1 1 1), Inr (sample_entry ''up'' (Some 10) 1 1 1),
           Inr (sample_entry ''up'' (Some 15) 1 1 1), Inr (sample_entry ''up'' (Some 20) 1 1 1),
           Inr (sample_entry ''up'' (Some 21) 1 1 1)] None
        = Inr (queries,
               [sample_entry ''up'' (Some 10) 1 1 1, sample_entry ''up'' (Some 15) 1 1 1,
                sample_entry ''up'' (Some 20) 1 1 1], ws))"
proof -
  let ?lines = "[Inr (sample_entry ''up'' (Some 9) 1 1 1), Inr (sample_entry ''up'' (Some 10) 1 1 1),
           Inr (sample_entry ''up'' (Some 15) 1 1 1), Inr (sample_entry ''up'' (Some 20) 1 1 1),
           Inr (sample_entry ''up'' (Some 21) 1 1 1)] :: (string + LogEntry) list"
  have "\<forall>l \<in> set ?lines. \<exists>e. decode_sample l = Inr e \<and> carries_ts e"
    by (simp add: decode_sample_def carries_ts_def sample_entry_def)
  from load_total [OF this map_order_permutes, of "Some 10" "Some 20"]
  obtain queries logs ws where
    run: "LoadQueriesFromLog decode_sample map_order (Some 10) (Some 20) ?lines None
            = Inr (queries, logs, ws)"
    by blast
  from time_window_inclusive [OF run map_order_permutes]
  have "logs = filter (survives (Some 10) (Some 20)) (decoded decode_sample ?lines)"
    by simp
  also have "\<dots> = [sample_entry ''up'' (Some 10) 1 1 1, sample_entry ''up'' (Some 15) 1 1 1,
                sample_entry ''up'' (Some 20) 1 1 1]"
    by (simp add: decoded_def decode_sample_def survives_def in_window_def sample_entry_def)
  finally show ?thesis
    using run map_order_permutes by blast
qed

text \<open>
  Claim C6. For every input the multiset union of the records held by all the groups
  equals the filtered record list: every surviving record belongs to exactly one group,
  the one keyed by its query text (exact string equality), and no record is duplicated or
  dropped between groups.

  The sum of the multisets of the groups' records is the multiset of the filtered
  records, the keys of the groups are pairwise distinct, and the records of a group are
  the filtered records with the group's query, in the order of arrival.
\<close>

theorem groups_partition_filtered_records:
  assumes "LoadQueriesFromLog U ord tfrom tto lines scan_err = Inr (queries, logs, ws)"
    and "permutes ord"
  shows "sum_list (map (\<lambda>q. mset (Logs q)) queries) = mset logs
       \<and> distinct (map Query_str queries)
       \<and> (\<forall>q \<in> set queries. Logs q = filter (\<lambda>e. Query (Params e) = Query_str q) logs)"
  using groups_of_load [OF assms] by simp

theorem groups_partition_filtered_records_witness:
  "permutes map_order
   \<and> (\<exists>queries logs ws.
        LoadQueriesFromLog decode_sample map_order None None
          [Inr (sample_entry ''up'' (Some 1) 1 1 1), Inr (sample_entry ''node_load1'' (Some 2) 2 2 2),
           Inr (sample_entry [] (Some 3) 3 3 3), Inr (sample_entry ''up'' (Some 4) 4 4 4)] None
        = Inr (queries, logs, ws)
        \<and> logs = [sample_entry ''up'' (Some 1) 1 1 1, sample_entry ''node_load1'' (Some 2) 2 2 2,
                  sample_entry ''up'' (Some 4) 4 4 4]
        \<and> sum_list (map (\<lambda>q. mset (Logs q)) queries) = mset logs
        \<and> distinct (map Query_str queries))"
proof -
  let ?lines = "[Inr (sample_entry ''up'' (Some 1) 1 1 1), Inr (sample_entry ''node_load1'' (Some 2) 2 2 2),
           Inr (sample_entry [] (Some 3) 3 3 3), Inr (sample_entry ''up'' (Some 4) 4 4 4)]
           :: (string + LogEntry) list"
  have "\<forall>l \<in> set ?lines. \<exists>e. decode_sample l = Inr e \<and> carries_ts e"
    by (simp add: decode_sample_def carries_ts_def sample_entry_def)
  from load_total [OF this map_order_permutes, of None None]
  obtain queries logs ws where
    run: "LoadQueriesFromLog decode_sample map_order None None ?lines None = Inr (queries, logs, ws)"
    by blast
  have "logs = filter (survives None None) (decoded decode_sample ?lines)"
    by (rule LoadQueriesFromLog_Inr(1) [OF run])
  also have "\<dots> = [sample_entry ''up'' (Some 1) 1 1 1, sample_entry ''node_load1'' (Some 2) 2 2 2,
                  sample_entry ''up'' (Some 4) 4 4 4]"
    by (simp add: decoded_def decode_sample_def survives_def in_window_def sample_entry_def)
  finally have logs: "logs = [sample_entry ''up'' (Some 1) 1 1 1,
      sample_entry ''node_load1'' (Some 2) 2 2 2, sample_entry ''up'' (Some 4) 4 4 4]" .
  from groups_partition_filtered_records [OF run map_order_permutes]
  show ?thesis
    using run logs map_order_permutes by blast
qed

text \<open>
  Claim C10. The aggregation is total only when every record that decodes with a non-empty
  query carries a timestamp: for a line that decodes with a non-empty query and no
  \<^verbatim>\<open>ts\<close> field, the time-window test (when a bound is set) or the update of the load
  statistics dereferences a nil pointer and the run crashes, instead of skipping the
  record or reporting a decode error.

  First part: when every decoded record carries a timestamp, both versions return, with
  a result or with an error value. Second part: at the first record with a non-empty
  query and no timestamp the newest version panics when a bound is set, and the version
  with \<^verbatim>\<open>LoadStats\<close> panics whether a bound is set or not.
\<close>

theorem missing_timestamp_crashes:
  "(permutes ord \<and> (\<forall>l \<in> set lines. \<forall>e. U l = Inr e \<longrightarrow> carries_ts e) \<longrightarrow>
      returns_normally (LoadQueriesFromLog U ord tfrom tto lines scan_err)
      \<and> returns_normally (LoadQueriesFromLog_LoadStats U ord now tfrom tto lines scan_err))
   \<and> ((\<forall>l' \<in> set pre. \<exists>e'. U l' = Inr e' \<and> carries_ts e')
        \<and> U l = Inr entry \<and> Query (Params entry) \<noteq> [] \<and> TS entry = None \<longrightarrow>
      (tfrom \<noteq> None \<or> tto \<noteq> None \<longrightarrow>
         LoadQueriesFromLog U ord tfrom tto (pre @ l # post) scan_err = Inl PanicNilDereference)
      \<and> LoadQueriesFromLog_LoadStats U ord now tfrom tto (pre @ l # post) scan_err
          = Inl PanicNilDereference)"
proof (intro conjI impI; (elim conjE)?)
  assume perm: "permutes ord" and ts: "\<forall>l \<in> set lines. \<forall>e. U l = Inr e \<longrightarrow> carries_ts e"
  have normal: "returns_normally
      (case scan_lines U C tfrom tto 0 lines st of
         Inl e \<Rightarrow> Inl e
       | Inr st' \<Rightarrow>
           (case scan_err of
              Some err \<Rightarrow> Inl (ScannerError err)
            | None \<Rightarrow>
                (case build_queries (ord (qMap st')) of
                   Inl e \<Rightarrow> Inl e
                 | Inr queries \<Rightarrow> Inr (queries, collected st', warnings st'))))"
    if C: "\<And>e c. TS e \<noteq> None \<Longrightarrow> \<exists>c'. C e c = Inr c'" and st: "qMap st = []"
    for C :: "LogEntry \<Rightarrow> 'c \<Rightarrow> error + 'c" and st
  proof -
    from scan_lines_no_crash [OF ts, of C tfrom tto 0 st] C
    consider st' where "scan_lines U C tfrom tto 0 lines st = Inr st'"
      | k err where "scan_lines U C tfrom tto 0 lines st = Inl (FailedToParseLine k err)"
      by blast
    then show ?thesis
    proof cases
      case 1
      have "\<forall>p \<in> set (qMap st'). fst p \<noteq> [] \<and> snd p \<noteq> []"
        using scan_lines_buckets [OF 1] st by simp
      then obtain qs where "build_queries (ord (qMap st')) = Inr qs"
        using build_queries_ok [of "ord (qMap st')"] permutes_set [OF perm] by auto
      then show ?thesis
        by (simp add: 1 returns_normally_def split: option.split)
    next
      case 2
      then show ?thesis by (simp add: returns_normally_def)
    qed
  qed
  show "returns_normally (LoadQueriesFromLog U ord tfrom tto lines scan_err)"
    unfolding LoadQueriesFromLog_def
    by (rule normal) (simp_all add: append_log_total)
  show "returns_normally (LoadQueriesFromLog_LoadStats U ord now tfrom tto lines scan_err)"
    unfolding LoadQueriesFromLog_LoadStats_def
    by (rule normal) (simp_all add: update_stats_total)
next
  assume pre: "\<forall>l' \<in> set pre. \<exists>e'. U l' = Inr e' \<and> carries_ts e'"
    and l: "U l = Inr entry" and q: "Query (Params entry) \<noteq> []" and nil: "TS entry = None"
    and bound: "tfrom \<noteq> None \<or> tto \<noteq> None"
  obtain st1 where "scan_lines U append_log tfrom tto 0 (pre @ l # post)
        \<lparr>qMap = [], collected = [], warnings = []\<rparr>
      = scan_lines U append_log tfrom tto (length pre) (l # post) st1"
    using scan_prefix_then [OF pre, of append_log] append_log_total by blast
  then have "scan_lines U append_log tfrom tto 0 (pre @ l # post)
        \<lparr>qMap = [], collected = [], warnings = []\<rparr> = Inl PanicNilDereference"
    using l q nil bound by (auto simp: outside_window_None)
  then show "LoadQueriesFromLog U ord tfrom tto (pre @ l # post) scan_err = Inl PanicNilDereference"
    by (simp add: LoadQueriesFromLog_def)
next
  assume pre: "\<forall>l' \<in> set pre. \<exists>e'. U l' = Inr e' \<and> carries_ts e'"
    and l: "U l = Inr entry" and q: "Query (Params entry) \<noteq> []" and nil: "TS entry = None"
  obtain st2 where "scan_lines U update_stats tfrom tto 0 (pre @ l # post)
        \<lparr>qMap = [], collected = \<lparr>Num = 0, From = now, To = zero_time\<rparr>, warnings = []\<rparr>
      = scan_lines U update_stats tfrom tto (length pre) (l # post) st2"
    using scan_prefix_then [OF pre, of update_stats] update_stats_total by blast
  then have "scan_lines U update_stats tfrom tto 0 (pre @ l # post)
        \<lparr>qMap = [], collected = \<lparr>Num = 0, From = now, To = zero_time\<rparr>, warnings = []\<rparr>
      = Inl PanicNilDereference"
    using l q nil by (auto simp: outside_window_None update_stats_def Let_def)
  then show "LoadQueriesFromLog_LoadStats U ord now tfrom tto (pre @ l # post) scan_err
      = Inl PanicNilDereference"
    by (simp add: LoadQueriesFromLog_LoadStats_def)
qed

theorem missing_timestamp_crashes_witness:
  "returns_normally (LoadQueriesFromLog decode_sample map_order (Some 5) None
      [Inr (sample_entry ''up'' (Some 7) 1 1 1)] None)
   \<and> returns_normally (LoadQueriesFromLog_LoadStats decode_sample map_order 100 (Some 5) None
      [Inr (sample_entry ''up'' (Some 7) 1 1 1)] None)
   \<and> LoadQueriesFromLog decode_sample map_order (Some 5) None
       ([Inr (sample_entry ''up'' (Some 7) 1 1 1)] @ Inr (sample_entry ''up'' None 1 1 1) # []) None
      = Inl PanicNilDereference
   \<and> LoadQueriesFromLog_LoadStats decode_sample map_order 100 (Some 5) None
       ([Inr (sample_entry ''up'' (Some 7) 1 1 1)] @ Inr (sample_entry ''up'' None 1 1 1) # []) None
      = Inl PanicNilDereference"
proof -
  let ?pre = "[Inr (sample_entry ''up'' (Some 7) 1 1 1)] :: (string + LogEntry) list"
  have h1: "\<forall>l \<in> set ?pre. \<forall>e. decode_sample l = Inr e \<longrightarrow> carries_ts e"
    by (simp add: decode_sample_def carries_ts_def sample_entry_def)
  have h2: "\<forall>l' \<in> set ?pre. \<exists>e'. decode_sample l' = Inr e' \<and> carries_ts e'"
    by (simp add: decode_sample_def carries_ts_def sample_entry_def)
  have h3: "decode_sample (Inr (sample_entry ''up'' None 1 1 1)) = Inr (sample_entry ''up'' None 1 1 1)"
    by (simp add: decode_sample_def)
  have h4: "Query (Params (sample_entry ''up'' None 1 1 1)) \<noteq> []"
    and h5: "TS (sample_entry ''up'' None 1 1 1) = None"
    by (simp_all add: sample_entry_def)
  from missing_timestamp_crashes [where ord = map_order and U = decode_sample and lines = ?pre
      and pre = ?pre and l = "Inr (sample_entry ''up'' None 1 1 1)"
      and entry = "sample_entry ''up'' None 1 1 1" and tfrom = "Some 5" and tto = None
      and scan_err = None and now = 100 and post = "[]"]
  show ?thesis
    using map_order_permutes h1 h2 h3 h4 h5 by blast
qed

section \<open>Properties of the ranked tables and of the load summary\<close>

lemma print_tables_ok:
  assumes "\<forall>m qs. mset (sort_Sort m qs) = mset qs" and "0 \<le> hi" and "hi \<le> int (length queries)"
  shows "\<exists>tables. print_tables sort_Sort hi ms queries = Inr tables \<and> map fst tables = ms
           \<and> (\<forall>(m, rows) \<in> set tables.
                 \<exists>sorted. mset sorted = mset queries \<and> rows = take (nat hi) sorted)"
  using assms(3)
proof (induction ms arbitrary: queries)
  case Nil
  show ?case by simp
next
  case (Cons m ms)
  let ?sorted = "sort_Sort m queries"
  have perm: "mset ?sorted = mset queries"
    using assms(1) by simp
  then have len: "length ?sorted = length queries"
    by (rule mset_eq_length)
  then have sl: "slice_to ?sorted hi = Inr (take (nat hi) ?sorted)"
    using assms(2) Cons.prems by (simp add: slice_to_def)
  from Cons.IH [of ?sorted] obtain tables where
    t: "print_tables sort_Sort hi ms ?sorted = Inr tables" and f: "map fst tables = ms"
    and r: "\<forall>(m, rows) \<in> set tables. \<exists>sorted. mset sorted = mset ?sorted \<and> rows = take (nat hi) sorted"
    using Cons.prems len by auto
  have "print_tables sort_Sort hi (m # ms) queries = Inr ((m, take (nat hi) ?sorted) # tables)"
    by (simp add: Let_def sl t)
  moreover have "\<forall>(m, rows) \<in> set ((m, take (nat hi) ?sorted) # tables).
      \<exists>sorted. mset sorted = mset queries \<and> rows = take (nat hi) sorted"
    using r perm by auto
  ultimately show ?case
    using f by simp
qed

lemma keep_order_perm: "\<forall>m qs. mset (keep_order m qs) = mset qs"
  by (simp add: keep_order_def)

text \<open>
  Claim C8. For every collection of groups and every requested count, each ranked view
  has length \<open>min(count, number of groups)\<close>: the count is clamped to the number of
  groups before slicing, and when it exceeds the number of distinct queries the output
  holds exactly the distinct queries, with no padding and no access out of bounds.

  The clamp is from above only. \<^verbatim>\<open>-top\<close> is an \<^verbatim>\<open>int\<close> flag, and for the count
  \<open>-1\<close> the slice expression \<^verbatim>\<open>queries[:*argTop]\<close> panics.
\<close>

theorem ranked_views_negative_count:
  "ranked_views keep_order (- 1) [sample_query ''up''] = Inl PanicSliceBounds"
  by code_simp

text \<open>
  Claim C8, amended. For every collection of groups and every requested count that is not
  negative, the six ranked views are printed, each of length
  \<open>min(count, number of groups)\<close>; when the count is at least the number of groups a
  view holds exactly the groups.
\<close>

theorem ranked_views_length:
  assumes "\<forall>m qs. mset (sort_Sort m qs) = mset qs" and "0 \<le> argTop"
  shows "\<exists>tables. ranked_views sort_Sort argTop queries = Inr tables
           \<and> map fst tables = all_metrics
           \<and> (\<forall>(m, rows) \<in> set tables.
                 length rows = min (nat argTop) (length queries)
                 \<and> (int (length queries) \<le> argTop \<longrightarrow> mset rows = mset queries))"
proof -
  let ?top = "clamp_argTop argTop (length queries)"
  have hi: "0 \<le> ?top" "?top \<le> int (length queries)"
    using assms(2) by (simp_all add: clamp_argTop_def)
  from print_tables_ok [OF assms(1) hi, of all_metrics] obtain tables where
    t: "print_tables sort_Sort ?top all_metrics queries = Inr tables"
    and f: "map fst tables = all_metrics"
    and r: "\<forall>(m, rows) \<in> set tables.
              \<exists>sorted. mset sorted = mset queries \<and> rows = take (nat ?top) sorted"
    by blast
  have "length rows = min (nat argTop) (length queries)
        \<and> (int (length queries) \<le> argTop \<longrightarrow> mset rows = mset queries)"
    if "(m, rows) \<in> set tables" for m rows
  proof -
    from r that obtain sorted where s: "mset sorted = mset queries"
      and rows: "rows = take (nat ?top) sorted"
      by blast
    have len: "length sorted = length queries"
      using s by (rule mset_eq_length)
    show ?thesis
      using assms(2) s len by (auto simp: rows clamp_argTop_def min_def)
  qed
  then show ?thesis
    using t f by (auto simp: ranked_views_def)
qed

theorem ranked_views_length_witness:
  "(0::int) \<le> 10
   \<and> (\<exists>tables. ranked_views keep_order 10 [sample_query ''up'', sample_query ''node_load1''] = Inr tables
         \<and> map fst tables = all_metrics
         \<and> map (\<lambda>t. length (snd t)) tables = replicate 6 2)"
proof -
  have h: "(0::int) \<le> 10" by simp
  from ranked_views_length [OF keep_order_perm h, of "[sample_query ''up'', sample_query ''node_load1'']"]
  obtain tables where
    t: "ranked_views keep_order 10 [sample_query ''up'', sample_query ''node_load1''] = Inr tables"
    and f: "map fst tables = all_metrics"
    and r: "\<forall>(m, rows) \<in> set tables.
              length rows = min (nat 10) (length [sample_query ''up'', sample_query ''node_load1''])
              \<and> (int (length [sample_query ''up'', sample_query ''node_load1'']) \<le> 10 \<longrightarrow>
                   mset rows = mset [sample_query ''up'', sample_query ''node_load1''])"
    by blast
  have "length tables = length all_metrics"
    using f by (metis length_map)
  then have n: "length tables = 6"
    by (simp add: all_metrics_def)
  from r have "map (\<lambda>t. length (snd t)) tables = map (\<lambda>t. 2) tables"
    by (intro map_cong) auto
  then have "map (\<lambda>t. length (snd t)) tables = replicate 6 2"
    by (simp add: map_replicate_const n)
  then show ?thesis
    using t f h by blast
qed

text \<open>
  Claim C9. After the aggregation the logged summary reports the number of surviving
  records and, as its from and to values, the least and the greatest timestamp among the
  surviving records.

  The version with \<^verbatim>\<open>LoadStats\<close> starts \<^verbatim>\<open>From\<close> at \<^verbatim>\<open>time.Now()\<close> and
  lowers it only for an earlier timestamp. For a log whose entries are all stamped later
  than the clock reading taken at the start of the load (here the clock reads 100 and the
  two entries are stamped 200 and 300) the summary reports 100 as the from value, which
  is the timestamp of no record; the least timestamp is 200. In general the reported
  values are those of \<open>load_stats_of_load\<close>: the least timestamp or the clock reading,
  whichever is earlier, and the greatest timestamp or the zero time, whichever is later.
\<close>

theorem load_summary_future_timestamps:
  "main_load_summary decode_sample map_order 100 None None
      [Inr (sample_entry ''up'' (Some 200) 1 1 1), Inr (sample_entry ''up'' (Some 300) 1 1 1)] None
     = Inr (2, 100, 300)"
  by code_simp


end
